theory Spec2Isabelle
  imports Main "HOL-Library.Word"
begin

section \<open>The shrex/nd client (share/p2p/shrexnd/client.go)\<close>

subsection \<open>Wire types (share/p2p/shrexnd/pb/share.proto)\<close>

type_synonym bytes = "8 word list"

text \<open>
  \<^verbatim>\<open>enum StatusCode { INVALID = 0; OK = 1; NOT_FOUND = 2; INTERNAL = 3; NAMESPACE_NOT_FOUND = 4; }\<close>
  A proto3 enum is open: the generated Go type is an \<^verbatim>\<open>int32\<close> and a response may carry
  any 32-bit value, so the status is a 32-bit word and the five names are constants.
\<close>

type_synonym StatusCode = "32 word"

definition StatusCode_INVALID :: StatusCode where "StatusCode_INVALID = 0"
definition StatusCode_OK :: StatusCode where "StatusCode_OK = 1"
definition StatusCode_NOT_FOUND :: StatusCode where "StatusCode_NOT_FOUND = 2"
definition StatusCode_INTERNAL :: StatusCode where "StatusCode_INTERNAL = 3"
definition StatusCode_NAMESPACE_NOT_FOUND :: StatusCode where "StatusCode_NAMESPACE_NOT_FOUND = 4"

lemmas StatusCode_defs =
  StatusCode_INVALID_def StatusCode_OK_def StatusCode_NOT_FOUND_def
  StatusCode_INTERNAL_def StatusCode_NAMESPACE_NOT_FOUND_def

text \<open>\<^verbatim>\<open>message Proof { int64 start = 1; int64 end = 2; repeated bytes Nodes = 3; }\<close>\<close>

record pb_Proof =
  Proof_Start :: "64 word"
  Proof_End :: "64 word"
  Proof_Nodes :: "bytes list"

text \<open>
  \<^verbatim>\<open>message Row { repeated bytes shares = 1; Proof proof = 2; }\<close>
  The proof is a pointer in the generated Go struct; \<open>None\<close> is the nil pointer.
\<close>

record pb_Row =
  Row_Shares :: "bytes list"
  Row_Proof :: "pb_Proof option"

text \<open>\<^verbatim>\<open>message GetSharesByNamespaceResponse { StatusCode status = 1; repeated Row rows = 2; }\<close>\<close>

record GetSharesByNamespaceResponse =
  Status :: StatusCode
  Rows :: "pb_Row list"

subsection \<open>Go error values\<close>

text \<open>
  The package-level error values the client compares against or returns. Go compares them
  by identity, so they are the constructors of a datatype: \<^verbatim>\<open>io.EOF\<close>,
  \<^verbatim>\<open>context.DeadlineExceeded\<close>, \<^verbatim>\<open>context.Canceled\<close>, \<^verbatim>\<open>p2p.ErrNotFound\<close>,
  \<^verbatim>\<open>share.ErrNamespaceNotFound\<close> and \<^verbatim>\<open>p2p.ErrInvalidResponse\<close>.
\<close>

datatype sentinel =
  EOF | DeadlineExceeded | Canceled | ErrNotFound | ErrNamespaceNotFound | ErrInvalidResponse

text \<open>
  An error value is one of the values above, or a value of some other type. Of such a
  value the client observes only: the targets its own \<^verbatim>\<open>Is\<close> method accepts, whether its
  type implements \<^verbatim>\<open>net.Error\<close> (\<open>Some t\<close> with \<open>t\<close> the result of \<^verbatim>\<open>Timeout()\<close>), and
  the error its \<^verbatim>\<open>Unwrap\<close> method returns (\<open>Wrapped\<close>) if it has one (\<open>Custom\<close> has none).
\<close>

datatype error =
    Sentinel sentinel
  | Custom string "sentinel list" "bool option"
  | Wrapped string "sentinel list" "bool option" error

text \<open>\<^verbatim>\<open>fmt.Errorf("msg: %w", err)\<close>: a wrapper with no \<^verbatim>\<open>Is\<close> method that is no \<^verbatim>\<open>net.Error\<close>.\<close>

definition Errorf :: "string \<Rightarrow> error \<Rightarrow> error" where
  "Errorf msg err = Wrapped msg [] None err"

text \<open>\<^verbatim>\<open>errors.Is(err, target)\<close> for a target that is one of the package-level values.\<close>

fun errors_Is :: "error \<Rightarrow> sentinel \<Rightarrow> bool" where
  "errors_Is (Sentinel s) target = (s = target)"
| "errors_Is (Custom msg is nt) target = (target \<in> set is)"
| "errors_Is (Wrapped msg is nt err) target = (target \<in> set is \<or> errors_Is err target)"

text \<open>
  \<^verbatim>\<open>var ne net.Error; errors.As(err, &ne)\<close>: the first error of the chain whose type
  implements \<^verbatim>\<open>net.Error\<close>; the result is what its \<^verbatim>\<open>Timeout()\<close> returns, \<open>None\<close> when
  the chain has no such error. Of the package-level values only
  \<^verbatim>\<open>context.DeadlineExceeded\<close> has a \<^verbatim>\<open>Timeout\<close> method (it returns true); the others
  are made by \<^verbatim>\<open>errors.New\<close>.
\<close>

fun errors_As_net_Error :: "error \<Rightarrow> bool option" where
  "errors_As_net_Error (Sentinel s) = (if s = DeadlineExceeded then Some True else None)"
| "errors_As_net_Error (Custom msg is nt) = nt"
| "errors_As_net_Error (Wrapped msg is nt err) =
     (case nt of Some t \<Rightarrow> Some t | None \<Rightarrow> errors_As_net_Error err)"

subsection \<open>Metrics\<close>

text \<open>
  The statuses of \<^verbatim>\<open>p2p.Metrics\<close> that the client reports. A call
  \<^verbatim>\<open>c.metrics.ObserveRequests(ctx, n, status)\<close> is the observation \<open>(n, status)\<close>; every
  function below returns the observations it made, in order, next to its results.
\<close>

datatype status = StatusSuccess | StatusNotFound | StatusTimeout | StatusRateLimited

type_synonym observation = "int \<times> status"

subsection \<open>statusToErr\<close>

text \<open>
  The \<^verbatim>\<open>switch\<close> of \<^verbatim>\<open>statusToErr\<close>, case by case in the source's order; \<^verbatim>\<open>INVALID\<close>
  (after a debug log line) and \<^verbatim>\<open>INTERNAL\<close> fall through to \<^verbatim>\<open>default\<close>.
\<close>

definition statusToErr :: "StatusCode \<Rightarrow> error option \<times> observation list" where
  "statusToErr code =
     (if code = StatusCode_OK then (None, [(1, StatusSuccess)])
      else if code = StatusCode_NOT_FOUND then (Some (Sentinel ErrNotFound), [(1, StatusNotFound)])
      else if code = StatusCode_NAMESPACE_NOT_FOUND then (Some (Sentinel ErrNamespaceNotFound), [])
      else if code = StatusCode_INVALID then (Some (Sentinel ErrInvalidResponse), [])
      else if code = StatusCode_INTERNAL then (Some (Sentinel ErrInvalidResponse), [])
      else (Some (Sentinel ErrInvalidResponse), []))"

subsection \<open>convertToNamespacedShares\<close>

text \<open>
  \<^verbatim>\<open>nmt.Proof\<close> as \<^verbatim>\<open>nmt.NewInclusionProof(start, end, nodes, ignoreMaxNamespace)\<close> fills it.
\<close>

record nmt_Proof =
  proof_start :: int
  proof_end :: int
  proof_nodes :: "bytes list"
  isMaxNamespaceIDIgnored :: bool

record NamespacedRow =
  Shares :: "bytes list"
  Proof :: "nmt_Proof option"

text \<open>
  Modelled from the spec: the constant \<^verbatim>\<open>ipld.NMTIgnoreMaxNamespace\<close>, declared outside the
  files at hand. The spec has the ignore-max-namespace mode applied throughout.
\<close>

definition NMTIgnoreMaxNamespace :: bool where
  "NMTIgnoreMaxNamespace = True"

definition NewInclusionProof :: "int \<Rightarrow> int \<Rightarrow> bytes list \<Rightarrow> bool \<Rightarrow> nmt_Proof" where
  "NewInclusionProof s e ns ign =
     \<lparr>proof_start = s, proof_end = e, proof_nodes = ns, isMaxNamespaceIDIgnored = ign\<rparr>"

text \<open>The body of the loop over the rows; \<^verbatim>\<open>int(x)\<close> of an \<^verbatim>\<open>int64\<close> is its signed value.\<close>

definition convertRow :: "pb_Row \<Rightarrow> NamespacedRow" where
  "convertRow row =
     \<lparr>Shares = Row_Shares row,
      Proof = (case Row_Proof row of
                 None \<Rightarrow> None
               | Some p \<Rightarrow> Some (NewInclusionProof (sint (Proof_Start p)) (sint (Proof_End p))
                                   (Proof_Nodes p) NMTIgnoreMaxNamespace))\<rparr>"

text \<open>
  A Go slice is nil or a list: \<open>None\<close> is the nil slice. The function starts from
  \<^verbatim>\<open>make([]share.NamespacedRow, 0, len(rows))\<close>, never nil, and its error is always nil.
\<close>

definition convertToNamespacedShares ::
  "pb_Row list \<Rightarrow> NamespacedRow list option \<times> error option" where
  "convertToNamespacedShares rows = (Some (map convertRow rows), None)"

subsection \<open>doRequest\<close>

text \<open>
  What the peer and the transport do is the input: the error of \<^verbatim>\<open>host.NewStream\<close>, of
  \<^verbatim>\<open>serde.Write\<close> and of \<^verbatim>\<open>stream.CloseWrite\<close> (\<open>None\<close> is nil), and what \<^verbatim>\<open>serde.Read\<close>
  gives: an error, or the response it decoded.
\<close>

record exchange =
  NewStream_err :: "error option"
  Write_err :: "error option"
  CloseWrite_err :: "error option"
  Read_result :: "error + GetSharesByNamespaceResponse"

text \<open>
  \<^verbatim>\<open>doRequest\<close> returns a pair \<^verbatim>\<open>(share.NamespacedShares, error)\<close>, kept as a pair here.
  An error of \<^verbatim>\<open>CloseWrite\<close> is logged and the request goes on. Setting the stream's
  deadlines, resetting and closing it change no returned value and are left out.
\<close>

definition doRequest ::
  "exchange \<Rightarrow> (NamespacedRow list option \<times> error option) \<times> observation list" where
  "doRequest x =
     (case NewStream_err x of
        Some err \<Rightarrow> ((None, Some err), [])
      | None \<Rightarrow>
     (case Write_err x of
        Some err \<Rightarrow> ((None, Some (Errorf ''client-nd: writing request'' err)), [])
      | None \<Rightarrow>
     (case Read_result x of
        Inl err \<Rightarrow>
          if errors_Is err EOF
          then ((None, Some (Sentinel ErrNotFound)), [(1, StatusRateLimited)])
          else ((None, Some (Errorf ''client-nd: reading response'' err)), [])
      | Inr resp \<Rightarrow>
     (case statusToErr (Status resp) of
        (Some err, obs) \<Rightarrow>
          ((None, Some (Errorf ''client-nd: response code is not OK'' err)), obs)
      | (None, obs) \<Rightarrow>
     (case convertToNamespacedShares (Rows resp) of
        (shares, Some err) \<Rightarrow>
          ((None, Some (Errorf ''client-nd: converting response to shares'' err)), obs)
      | (shares, None) \<Rightarrow> ((shares, None), obs))))))"

subsection \<open>RequestND\<close>

text \<open>
  A \<^verbatim>\<open>time.Time\<close> is a number of nanoseconds counted from the zero \<^verbatim>\<open>time.Time\<close>, which is
  \<open>0\<close>. A context has a deadline or none; \<^verbatim>\<open>ctx.Deadline()\<close> returns the deadline and
  true, or the zero time and false.
\<close>

type_synonym time = int

record Context =
  deadline :: "time option"

definition ctx_Deadline :: "Context \<Rightarrow> time \<times> bool" where
  "ctx_Deadline ctx = (case deadline ctx of Some d \<Rightarrow> (d, True) | None \<Rightarrow> (0, False))"

text \<open>
  \<open>now\<close> is what \<^verbatim>\<open>time.Now()\<close> returns where \<^verbatim>\<open>RequestND\<close> reads it. The source takes
  \<^verbatim>\<open>deadline, _ := ctx.Deadline()\<close> and tests \<^verbatim>\<open>deadline.Before(time.Now())\<close>: the second
  component is dropped. The warning logged for the errors other than \<^verbatim>\<open>p2p.ErrNotFound\<close>
  and \<^verbatim>\<open>share.ErrNamespaceNotFound\<close> changes no returned value and is left out.
\<close>

definition RequestND ::
  "Context \<Rightarrow> time \<Rightarrow> exchange \<Rightarrow>
   (NamespacedRow list option \<times> error option) \<times> observation list" where
  "RequestND ctx now x =
     (case doRequest x of
        ((shares, None), obs) \<Rightarrow> ((shares, None), obs)
      | ((shares, Some err), obs) \<Rightarrow>
          if errors_Is err DeadlineExceeded \<or> errors_Is err Canceled
          then ((None, Some err), obs @ [(1, StatusTimeout)])
          else if errors_As_net_Error err = Some True \<and> fst (ctx_Deadline ctx) < now
          then ((None, Some (Sentinel DeadlineExceeded)), obs @ [(1, StatusTimeout)])
          else ((None, Some err), obs))"

section \<open>The extended data square\<close>

text \<open>
  The EDS engine and the helpers of package \<^verbatim>\<open>share\<close> are not among the files at hand; the
  test file (\<^verbatim>\<open>TestBlockRecovery\<close>, \<^verbatim>\<open>Test_ConvertEDStoShares\<close>) calls them. They are
  modelled here from section 4.4 of the specification. A share is a byte string; an unknown
  share is the empty byte string.
\<close>

subsection \<open>The square and its extension\<close>

text \<open>
  Modelled from the spec: the EDS value of the engine, a square of side \<open>2k\<close> for an
  original width \<open>k\<close>, kept as the list of its rows.
\<close>

record EDS =
  originalWidth :: nat
  cells :: "bytes list list"

text \<open>
  Modelled from the spec: the width of the square that \<open>n\<close> shares fill (the spec writes
  the argument of \<^verbatim>\<open>Extend\<close> as \<^verbatim>\<open>shares[k^2]\<close>, the test takes it with
  \<^verbatim>\<open>utils.SquareSize\<close>): the \<open>k\<close> with \<open>k * k = n\<close>, and none when \<open>n\<close> is no square.
\<close>

definition squareWidth :: "nat \<Rightarrow> nat option" where
  "squareWidth n = find (\<lambda>k. k * k = n) [0..<Suc n]"

text \<open>
  Modelled from the spec: the row-major arrangement of a flat sequence of shares, here its
  first \<open>n\<close> rows of width \<open>w\<close>.
\<close>

definition squareRows :: "nat \<Rightarrow> nat \<Rightarrow> bytes list \<Rightarrow> bytes list list" where
  "squareRows n w flat = map (\<lambda>i. take w (drop (i * w) flat)) [0..<n]"

text \<open>
  Modelled from the spec: \<^verbatim>\<open>Extend(shares[k^2])\<close> "arranges shares row-major into the
  top-left k x k quadrant, applies a systematic Reed-Solomon code along each of the 2k rows
  and 2k columns (row-first then column)". The codec is the parameter \<open>enc\<close>: it maps the
  \<open>k\<close> shares of a line to the parity shares the systematic code appends to them. The rows
  of the original quadrant are extended first; then each of the \<open>2k\<close> columns so obtained.
\<close>

definition Extend :: "(bytes list \<Rightarrow> bytes list) \<Rightarrow> bytes list \<Rightarrow> EDS option" where
  "Extend enc shares =
     (case squareWidth (length shares) of
        None \<Rightarrow> None
      | Some k \<Rightarrow>
          let top = map (\<lambda>r. r @ enc r) (squareRows k k shares);
              bottom = transpose (map enc (transpose top))
          in Some \<lparr>originalWidth = k, cells = top @ bottom\<rparr>)"

text \<open>
  Modelled from the spec: \<^verbatim>\<open>ExtractODS\<close> and \<^verbatim>\<open>ExtractEDS\<close> "return original quadrant /
  full square as a flat row-major sequence".
\<close>

definition ExtractODS :: "EDS \<Rightarrow> bytes list" where
  "ExtractODS eds = concat (map (take (originalWidth eds)) (take (originalWidth eds) (cells eds)))"

definition ExtractEDS :: "EDS \<Rightarrow> bytes list" where
  "ExtractEDS eds = concat (cells eds)"

text \<open>
  Modelled from the spec: \<^verbatim>\<open>Import(flat[(2k)^2])\<close> "reconstructs an EDS value; positions
  that are unknown are represented by empty blobs".
\<close>

definition Import :: "bytes list \<Rightarrow> EDS option" where
  "Import flat =
     (case squareWidth (length flat) of
        None \<Rightarrow> None
      | Some w \<Rightarrow>
          if odd w then None
          else Some \<lparr>originalWidth = w div 2, cells = squareRows w w flat\<rparr>)"

subsection \<open>removeRandShares (the test file, lines 132-145)\<close>

text \<open>
  The helper of the test file is there in source. Its loop draws an index with
  \<^verbatim>\<open>mrand.Intn(count)\<close>, skips it when the share there is already empty, and otherwise
  sets the share to nil and counts one removal, until \<open>d\<close> shares are removed. The draws
  are the input \<open>draws\<close>, in order. The result is \<open>None\<close> when the draws run out before
  \<open>d\<close> removals, or when a draw is not below \<^verbatim>\<open>count\<close> (which \<^verbatim>\<open>Intn\<close> never returns).
\<close>

fun removeRandShares :: "bytes list \<Rightarrow> nat \<Rightarrow> nat list \<Rightarrow> bytes list option" where
  "removeRandShares data 0 draws = Some data"
| "removeRandShares data (Suc d) [] = None"
| "removeRandShares data (Suc d) (ind # draws) =
     (if length data \<le> ind then None
      else if length (data ! ind) = 0 then removeRandShares data (Suc d) draws
      else removeRandShares (data[ind := []]) d draws)"

subsection \<open>Repair\<close>

datatype axis = Row | Col

datatype repair_error = FailedToSolve

text \<open>
  Modelled from the spec: \<^verbatim>\<open>Repair(row_roots, col_roots)\<close> "iteratively solves rows and
  columns using the RS codec, after each reconstructed row/column verifies it against the
  corresponding supplied root". Decoding a line and verifying the result against the root
  of that line is the parameter \<open>solve\<close>: \<open>solve ax i line\<close> is the completed line \<open>i\<close> of
  axis \<open>ax\<close>, or \<open>None\<close> when the line cannot be solved.
\<close>

type_synonym solver = "axis \<Rightarrow> nat \<Rightarrow> bytes list \<Rightarrow> bytes list option"

text \<open>
  Modelled from the spec: the unknown shares of a line ("empty blobs") and of a square.
\<close>

definition unknowns :: "bytes list \<Rightarrow> nat" where
  "unknowns line = length (filter (\<lambda>s. s = []) line)"

definition missing :: "bytes list list \<Rightarrow> nat" where
  "missing sq = sum_list (map unknowns sq)"

text \<open>
  Modelled from the spec: solving the rows, and solving the columns, of a square. A line
  with no unknown share is left alone; one that \<open>solve\<close> completes is replaced.
\<close>

definition solveLine :: "solver \<Rightarrow> axis \<Rightarrow> nat \<times> bytes list \<Rightarrow> bytes list" where
  "solveLine solve ax il =
     (case il of (i, line) \<Rightarrow>
        if unknowns line = 0 then line
        else (case solve ax i line of Some line' \<Rightarrow> line' | None \<Rightarrow> line))"

definition solveRows :: "solver \<Rightarrow> bytes list list \<Rightarrow> bytes list list" where
  "solveRows solve sq = map (\<lambda>i. solveLine solve Row (i, sq ! i)) [0..<length sq]"

definition solveCols :: "solver \<Rightarrow> bytes list list \<Rightarrow> bytes list list" where
  "solveCols solve sq =
     transpose (map (\<lambda>j. solveLine solve Col (j, transpose sq ! j)) [0..<length (transpose sq)])"

text \<open>
  Modelled from the spec: "the engine alternates axes until a fixed point"; the repair
  "fails cleanly" (\<^verbatim>\<open>FailedToSolve\<close>: "EDS repair ran to fixed point without
  completing"). One pass solves the rows, then the columns; the loop ends when no share
  is missing, and fails when a pass leaves as many shares missing as before.
\<close>

function repairLoop :: "solver \<Rightarrow> bytes list list \<Rightarrow> repair_error + bytes list list" where
  "repairLoop solve sq =
     (if missing sq = 0 then Inr sq
      else let sq' = solveCols solve (solveRows solve sq)
           in if missing sq' < missing sq then repairLoop solve sq' else Inl FailedToSolve)"
  by pat_completeness auto
termination
  by (relation "measure (\<lambda>(solve, sq). missing sq)") auto

declare repairLoop.simps [simp del]

text \<open>Modelled from the spec: \<^verbatim>\<open>Repair\<close> on an EDS value, \<^verbatim>\<open>ok | FailedToSolve\<close>.\<close>

definition Repair :: "solver \<Rightarrow> EDS \<Rightarrow> repair_error + EDS" where
  "Repair solve eds =
     (case repairLoop solve (cells eds) of
        Inl e \<Rightarrow> Inl e
      | Inr sq \<Rightarrow> Inr (eds\<lparr>cells := sq\<rparr>))"

text \<open>
  Modelled from the spec: line \<open>i\<close> of an axis of a square ("row / column"), and a line
  of which some shares are unknown.
\<close>

definition line_of :: "bytes list list \<Rightarrow> axis \<Rightarrow> nat \<Rightarrow> bytes list" where
  "line_of sq ax i = (case ax of Row \<Rightarrow> sq ! i | Col \<Rightarrow> map (\<lambda>r. r ! i) sq)"

definition partial_of :: "bytes list \<Rightarrow> bytes list \<Rightarrow> bool" where
  "partial_of line full = list_all2 (\<lambda>a b. a = [] \<or> a = b) line full"

text \<open>
  Modelled from the spec: the recovery rule "a row can be solved iff it has <= k unknowns;
  symmetrically for columns", for a codec and roots that belong to the square \<open>orig\<close>: of
  a line of \<open>orig\<close> with some shares unknown, \<open>solve\<close> returns the line of \<open>orig\<close> when at
  most \<open>k\<close> shares are unknown, and nothing otherwise.
\<close>

definition recovers :: "nat \<Rightarrow> bytes list list \<Rightarrow> solver \<Rightarrow> bool" where
  "recovers k orig solve \<longleftrightarrow>
     (\<forall>ax i line. i < length orig \<and> partial_of line (line_of orig ax i) \<longrightarrow>
        solve ax i line = (if unknowns line \<le> k then Some (line_of orig ax i) else None))"

text \<open>
  Modelled from the spec: a solver that follows the recovery rule for a given square; it
  stands for the codec and the roots of that square.
\<close>

definition rootSolver :: "nat \<Rightarrow> bytes list list \<Rightarrow> solver" where
  "rootSolver k orig ax i line =
     (if partial_of line (line_of orig ax i) \<and> unknowns line \<le> k
      then Some (line_of orig ax i) else None)"

text \<open>
  Modelled from the spec: an EDS as \<^verbatim>\<open>Extend\<close> leaves it, a square of side \<open>2k\<close> all of
  whose shares are known.
\<close>

definition wellformed :: "EDS \<Rightarrow> bool" where
  "wellformed eds \<longleftrightarrow>
     length (cells eds) = 2 * originalWidth eds
     \<and> list_all (\<lambda>r. length r = 2 * originalWidth eds \<and> list_all (\<lambda>s. s \<noteq> []) r) (cells eds)"

subsection \<open>Notions of the proofs\<close>

text \<open>
  A square given by its cells; the number of indices below \<open>n\<close> with a property; the
  square \<open>orig\<close> with the cells of \<open>P\<close> unknown; a square with no unknown cell.
\<close>

definition tab :: "nat \<Rightarrow> (nat \<Rightarrow> nat \<Rightarrow> 'a) \<Rightarrow> 'a list list" where
  "tab n f = map (\<lambda>i. map (f i) [0..<n]) [0..<n]"

abbreviation cnt :: "nat \<Rightarrow> (nat \<Rightarrow> bool) \<Rightarrow> nat" where
  "cnt n Q \<equiv> length (filter Q [0..<n])"

definition masked :: "nat \<Rightarrow> bytes list list \<Rightarrow> (nat \<Rightarrow> nat \<Rightarrow> bool) \<Rightarrow> bytes list list" where
  "masked n orig P = tab n (\<lambda>i j. if P i j then [] else orig ! i ! j)"

definition full_square :: "nat \<Rightarrow> bytes list list \<Rightarrow> bool" where
  "full_square n sq \<longleftrightarrow> length sq = n \<and> (\<forall>r\<in>set sq. length r = n \<and> [] \<notin> set r)"

text \<open>
  A deletion pattern of \<open>(k + 1)\<^sup>2\<close> cells: \<open>k + 1\<close> cells in each of the rows \<open>0, ..., k - 1\<close>,
  \<open>k\<close> cells in row \<open>k\<close> and one cell in row \<open>k + 1\<close>.
\<close>

definition pattern :: "nat \<Rightarrow> nat \<Rightarrow> nat \<Rightarrow> bool" where
  "pattern k i j \<longleftrightarrow> (i < k \<and> j \<le> k) \<or> (i = k \<and> j < k) \<or> (i = Suc k \<and> j = 0)"

text \<open>Two small squares, of original width 1 and 2, for the concrete instances.\<close>

definition square1 :: "bytes list list" where
  "square1 = [[[7], [7]], [[7], [7]]]"

definition square2 :: "bytes list list" where
  "square2 = [[[1], [2], [3], [4]], [[5], [6], [7], [8]],
              [[9], [10], [11], [12]], [[13], [14], [15], [16]]]"

section \<open>Properties of the shrex/nd client\<close>

lemma doRequest_error_nil:
  "snd (fst (doRequest x)) \<noteq> None \<Longrightarrow> fst (fst (doRequest x)) = None"
  by (auto simp: doRequest_def convertToNamespacedShares_def
           split: option.splits sum.splits prod.splits if_splits)

text \<open>
  Claim C7. \<^verbatim>\<open>statusToErr\<close> returns nil for \<^verbatim>\<open>OK\<close>, \<^verbatim>\<open>p2p.ErrNotFound\<close> for
  \<^verbatim>\<open>NOT_FOUND\<close>, \<^verbatim>\<open>share.ErrNamespaceNotFound\<close> for \<^verbatim>\<open>NAMESPACE_NOT_FOUND\<close>, and
  \<^verbatim>\<open>p2p.ErrInvalidResponse\<close> for every other status value; \<^verbatim>\<open>INVALID\<close> and \<^verbatim>\<open>INTERNAL\<close>
  are two of those.
\<close>

theorem statusToErr_mapping:
  "fst (statusToErr StatusCode_OK) = None
   \<and> fst (statusToErr StatusCode_NOT_FOUND) = Some (Sentinel ErrNotFound)
   \<and> fst (statusToErr StatusCode_NAMESPACE_NOT_FOUND) = Some (Sentinel ErrNamespaceNotFound)
   \<and> fst (statusToErr StatusCode_INVALID) = Some (Sentinel ErrInvalidResponse)
   \<and> fst (statusToErr StatusCode_INTERNAL) = Some (Sentinel ErrInvalidResponse)
   \<and> (code \<noteq> StatusCode_OK \<and> code \<noteq> StatusCode_NOT_FOUND
        \<and> code \<noteq> StatusCode_NAMESPACE_NOT_FOUND
      \<longrightarrow> fst (statusToErr code) = Some (Sentinel ErrInvalidResponse))"
  by (simp add: statusToErr_def StatusCode_defs)

theorem statusToErr_mapping_witness:
  "(7 :: StatusCode) \<noteq> StatusCode_OK \<and> (7 :: StatusCode) \<noteq> StatusCode_NOT_FOUND
   \<and> (7 :: StatusCode) \<noteq> StatusCode_NAMESPACE_NOT_FOUND
   \<and> fst (statusToErr 7) = Some (Sentinel ErrInvalidResponse)"
  using statusToErr_mapping [of 7] by (simp add: StatusCode_defs)

text \<open>
  Claim C8. When the stream opens, the request is written and the read of the response
  fails with an error that is \<^verbatim>\<open>io.EOF\<close>, \<^verbatim>\<open>doRequest\<close> and \<^verbatim>\<open>RequestND\<close> return a nil
  result with \<^verbatim>\<open>p2p.ErrNotFound\<close>, and the one observation made is
  \<^verbatim>\<open>p2p.StatusRateLimited\<close>.
\<close>

theorem eof_is_rate_limited:
  assumes "NewStream_err x = None" and "Write_err x = None"
    and "Read_result x = Inl err" and "errors_Is err EOF"
  shows "doRequest x = ((None, Some (Sentinel ErrNotFound)), [(1, StatusRateLimited)])
       \<and> RequestND ctx now x = ((None, Some (Sentinel ErrNotFound)), [(1, StatusRateLimited)])"
  using assms by (simp add: RequestND_def doRequest_def)

theorem eof_is_rate_limited_witness:
  "RequestND \<lparr>deadline = Some 5\<rparr> 3
     \<lparr>NewStream_err = None, Write_err = None, CloseWrite_err = None,
      Read_result = Inl (Wrapped ''stream reset'' [] None (Sentinel EOF))\<rparr>
   = ((None, Some (Sentinel ErrNotFound)), [(1, StatusRateLimited)])"
  using eof_is_rate_limited
    [of "\<lparr>NewStream_err = None, Write_err = None, CloseWrite_err = None,
          Read_result = Inl (Wrapped ''stream reset'' [] None (Sentinel EOF))\<rparr>"
        "Wrapped ''stream reset'' [] None (Sentinel EOF)" "\<lparr>deadline = Some 5\<rparr>" 3]
  by simp

text \<open>
  What \<^verbatim>\<open>RequestND\<close> does with an error of \<^verbatim>\<open>doRequest\<close> that is a \<^verbatim>\<open>net.Error\<close> with
  \<^verbatim>\<open>Timeout()\<close> true and is neither context error: it is replaced by
  \<^verbatim>\<open>context.DeadlineExceeded\<close> exactly when the time that \<^verbatim>\<open>ctx.Deadline()\<close> returns is
  before \<open>now\<close>. For a context with a deadline that is the deadline.
\<close>

lemma RequestND_net_timeout:
  assumes "doRequest x = ((shares, Some err), obs)"
    and "\<not> errors_Is err DeadlineExceeded" and "\<not> errors_Is err Canceled"
    and "errors_As_net_Error err = Some True"
  shows "RequestND ctx now x =
           (if fst (ctx_Deadline ctx) < now
            then ((None, Some (Sentinel DeadlineExceeded)), obs @ [(1, StatusTimeout)])
            else ((None, Some err), obs))"
  using assms by (simp add: RequestND_def)

lemma RequestND_net_timeout_with_deadline:
  assumes "doRequest x = ((shares, Some err), obs)"
    and "\<not> errors_Is err DeadlineExceeded" and "\<not> errors_Is err Canceled"
    and "errors_As_net_Error err = Some True"
  shows "RequestND \<lparr>deadline = Some d\<rparr> now x =
           (if d < now
            then ((None, Some (Sentinel DeadlineExceeded)), obs @ [(1, StatusTimeout)])
            else ((None, Some err), obs))"
  using RequestND_net_timeout [OF assms] by (simp add: ctx_Deadline_def)

text \<open>
  Claim C9, at a context that has no deadline. The read of the response fails with a
  \<^verbatim>\<open>net.Error\<close> whose \<^verbatim>\<open>Timeout()\<close> is true and that is neither context error. No deadline
  of the context has passed, yet \<^verbatim>\<open>RequestND\<close> returns \<^verbatim>\<open>context.DeadlineExceeded\<close> in
  place of the error and observes \<^verbatim>\<open>p2p.StatusTimeout\<close>: the zero time that
  \<^verbatim>\<open>ctx.Deadline()\<close> returns for such a context is before every later \<open>now\<close>.
\<close>

theorem RequestND_remaps_without_deadline:
  "RequestND \<lparr>deadline = None\<rparr> 1000
     \<lparr>NewStream_err = None, Write_err = None, CloseWrite_err = None,
      Read_result = Inl (Custom ''i/o deadline reached'' [] (Some True))\<rparr>
   = ((None, Some (Sentinel DeadlineExceeded)), [(1, StatusTimeout)])"
  by (simp add: RequestND_def doRequest_def ctx_Deadline_def Errorf_def)

text \<open>
  Claim C10. Whenever \<^verbatim>\<open>RequestND\<close> returns a non-nil error, the
  \<^verbatim>\<open>share.NamespacedShares\<close> it returns is nil.
\<close>

theorem RequestND_error_nil_shares:
  "snd (fst (RequestND ctx now x)) \<noteq> None \<Longrightarrow> fst (fst (RequestND ctx now x)) = None"
  using doRequest_error_nil [of x]
  by (auto simp: RequestND_def split: prod.splits option.splits if_splits)

theorem RequestND_error_nil_shares_witness:
  "snd (fst (RequestND \<lparr>deadline = Some 5\<rparr> 3
     \<lparr>NewStream_err = None, Write_err = None, CloseWrite_err = None,
      Read_result = Inr \<lparr>Status = StatusCode_INTERNAL,
                         Rows = [\<lparr>Row_Shares = [[1, 2]], Row_Proof = None\<rparr>]\<rparr>\<rparr>)) \<noteq> None
   \<and> fst (fst (RequestND \<lparr>deadline = Some 5\<rparr> 3
     \<lparr>NewStream_err = None, Write_err = None, CloseWrite_err = None,
      Read_result = Inr \<lparr>Status = StatusCode_INTERNAL,
                         Rows = [\<lparr>Row_Shares = [[1, 2]], Row_Proof = None\<rparr>]\<rparr>\<rparr>)) = None"
  using RequestND_error_nil_shares
    [of "\<lparr>deadline = Some 5\<rparr>" 3
        "\<lparr>NewStream_err = None, Write_err = None, CloseWrite_err = None,
          Read_result = Inr \<lparr>Status = StatusCode_INTERNAL,
                             Rows = [\<lparr>Row_Shares = [[1, 2]], Row_Proof = None\<rparr>]\<rparr>\<rparr>"]
  by (simp add: RequestND_def doRequest_def statusToErr_def StatusCode_defs Errorf_def)

section \<open>Properties of the extended data square\<close>

subsection \<open>Extraction after extension\<close>

lemma find_upt_least:
  assumes "k < n" and "P k" and "\<And>j. j < k \<Longrightarrow> \<not> P j"
  shows "find P [0..<n] = Some k"
proof -
  have "k < length [0..<n] \<and> P ([0..<n] ! k) \<and> k = [0..<n] ! k \<and> (\<forall>j<k. \<not> P ([0..<n] ! j))"
    using assms by simp
  then show ?thesis unfolding find_Some_iff by blast
qed

lemma squareWidth_square: "squareWidth (k * k) = Some k"
proof -
  have "k \<le> k * k" by (cases k) auto
  then have "k < Suc (k * k)" by (rule le_imp_less_Suc)
  moreover have "\<not> j * j = k * k" if "j < k" for j
    using that mult_strict_mono [of j k j k] by simp
  ultimately show ?thesis
    unfolding squareWidth_def by (intro find_upt_least) simp_all
qed

lemma concat_quadrant: "concat (map (\<lambda>i. take k (drop (i * k) xs)) [0..<n]) = take (n * k) xs"
proof (induction n)
  case 0 show ?case by simp
next
  case (Suc n)
  have "take (n * k) xs @ take k (drop (n * k) xs) = take (n * k + k) xs"
    by (simp add: take_add)
  with Suc show ?case by (simp add: add.commute)
qed

lemma squareRows_length: "length (squareRows n w flat) = n"
  by (simp add: squareRows_def)

lemma squareRows_row_length:
  assumes "length shares = k * k" and "r \<in> set (squareRows k k shares)"
  shows "length r = k"
proof -
  from assms(2) obtain i where i: "i < k" and r: "r = take k (drop (i * k) shares)"
    by (auto simp: squareRows_def)
  from i have "Suc i * k \<le> k * k" by (metis Suc_leI mult_le_mono1)
  then have "k \<le> k * k - i * k" by simp
  with assms(1) r show ?thesis by simp
qed

lemma concat_squareRows:
  "length shares = k * k \<Longrightarrow> concat (squareRows k k shares) = shares"
  by (simp add: squareRows_def concat_quadrant)

lemma ExtractODS_Extend:
  assumes "length shares = k * k"
  shows "\<exists>eds. Extend enc shares = Some eds \<and> ExtractODS eds = shares"
proof -
  let ?rows = "squareRows k k shares"
  have "map (take k) (map (\<lambda>r. r @ enc r) ?rows) = map (\<lambda>r. r) ?rows"
    unfolding map_map using squareRows_row_length [OF assms]
    by (intro map_cong) simp_all
  then have "concat (map (take k) (map (\<lambda>r. r @ enc r) ?rows)) = shares"
    using concat_squareRows [OF assms] by simp
  then show ?thesis
    using assms by (simp add: Extend_def ExtractODS_def squareWidth_square squareRows_length Let_def)
qed

text \<open>
  Claim C1. For every \<open>k\<close> in \<open>{2, 4, 8, 16, 32}\<close> and every sequence of \<open>k\<^sup>2\<close> original
  shares, \<^verbatim>\<open>Extend\<close> returns a square, and \<^verbatim>\<open>ExtractODS\<close> of that square is the input.
  This holds for every codec \<open>enc\<close>.
\<close>

theorem ExtractODS_Extend_roundtrip:
  assumes "k \<in> {2, 4, 8, 16, 32}" and "length shares = k * k"
  shows "\<exists>eds. Extend enc shares = Some eds \<and> ExtractODS eds = shares"
  using assms(2) by (rule ExtractODS_Extend)

theorem ExtractODS_Extend_roundtrip_witness:
  "(2::nat) \<in> {2, 4, 8, 16, 32}
   \<and> length [[1], [2], [3], [4::8 word]] = 2 * 2
   \<and> (\<exists>eds. Extend (map (map (\<lambda>b. b + 1))) [[1], [2], [3], [4]] = Some eds
            \<and> ExtractODS eds = [[1], [2], [3], [4]])"
  using ExtractODS_Extend_roundtrip [of 2 "[[1], [2], [3], [4]]" "map (map (\<lambda>b. b + 1))"]
  by simp

subsection \<open>Squares with unknown cells\<close>

lemma length_tab [simp]: "length (tab n f) = n"
  by (simp add: tab_def)

lemma nth_tab [simp]: "i < n \<Longrightarrow> tab n f ! i = map (f i) [0..<n]"
  by (simp add: tab_def)

lemma tab_cong: "(\<And>i j. i < n \<Longrightarrow> j < n \<Longrightarrow> f i j = g i j) \<Longrightarrow> tab n f = tab n g"
  by (simp add: tab_def)

lemma transpose_tab: "transpose (tab n f) = tab n (\<lambda>j i. f i j)"
proof -
  have "transpose (tab n f) = map (\<lambda>i. map (\<lambda>j. tab n f ! j ! i) [0..<length (tab n f)]) [0..<n]"
    by (rule transpose_rectangle) (auto simp: tab_def)
  also have "\<dots> = tab n (\<lambda>j i. f i j)"
    by (simp add: tab_def)
  finally show ?thesis .
qed

lemma full_square_tab:
  assumes "full_square n orig"
  shows "orig = tab n (\<lambda>i j. orig ! i ! j)"
proof (rule nth_equalityI)
  show "length orig = length (tab n (\<lambda>i j. orig ! i ! j))"
    using assms by (simp add: full_square_def)
next
  fix i assume "i < length orig"
  then have i: "i < n" and "length (orig ! i) = n"
    using assms by (auto simp: full_square_def)
  then have "map (\<lambda>j. orig ! i ! j) [0..<n] = orig ! i"
    using map_nth [of "orig ! i"] by simp
  with i show "orig ! i = tab n (\<lambda>i j. orig ! i ! j) ! i" by simp
qed

lemma full_square_cell: "full_square n orig \<Longrightarrow> i < n \<Longrightarrow> j < n \<Longrightarrow> orig ! i ! j \<noteq> []"
  by (metis full_square_def nth_mem)

lemma line_of_Row: "full_square n orig \<Longrightarrow> i < n \<Longrightarrow> line_of orig Row i = map (\<lambda>j. orig ! i ! j) [0..<n]"
  using full_square_tab [of n orig] by (simp add: line_of_def) (metis nth_tab)

lemma line_of_Col:
  assumes "full_square n orig"
  shows "line_of orig Col j = map (\<lambda>i. orig ! i ! j) [0..<n]"
proof -
  have "map (\<lambda>r. r ! j) orig = map (\<lambda>r. r ! j) (map (\<lambda>i. orig ! i) [0..<length orig])"
    by (simp only: map_nth)
  then show ?thesis using assms by (simp add: line_of_def full_square_def comp_def)
qed

lemma unknowns_masked_line:
  assumes "\<And>j. j < n \<Longrightarrow> g j \<noteq> []"
  shows "unknowns (map (\<lambda>j. if Q j then [] else g j) [0..<n]) = cnt n Q"
proof -
  have "filter ((\<lambda>s. s = []) \<circ> (\<lambda>j. if Q j then [] else g j)) [0..<n] = filter Q [0..<n]"
    using assms by (intro filter_cong) auto
  then show ?thesis by (simp add: unknowns_def filter_map)
qed

lemma partial_of_masked_line:
  "partial_of (map (\<lambda>j. if Q j then [] else g j) [0..<n]) (map g [0..<n])"
  by (simp add: partial_of_def list_all2_conv_all_nth)

lemma cnt_0: "cnt n Q = 0 \<Longrightarrow> j < n \<Longrightarrow> \<not> Q j"
  by (auto simp: filter_empty_conv)

lemma solveLine_masked:
  assumes rec: "recovers k orig solve" and i: "i < length orig"
    and line: "line_of orig ax i = map g [0..<n]"
    and g: "\<And>j. j < n \<Longrightarrow> g j \<noteq> []"
  shows "solveLine solve ax (i, map (\<lambda>j. if Q j then [] else g j) [0..<n])
         = map (\<lambda>j. if Q j \<and> k < cnt n Q then [] else g j) [0..<n]"
proof -
  let ?line = "map (\<lambda>j. if Q j then [] else g j) [0..<n]"
  have u: "unknowns ?line = cnt n Q" by (rule unknowns_masked_line) (rule g)
  show ?thesis
  proof (cases "cnt n Q = 0")
    case True
    then have "\<And>j. j < n \<Longrightarrow> \<not> Q j" by (rule cnt_0)
    then have eq: "?line = map (\<lambda>j. if Q j \<and> k < cnt n Q then [] else g j) [0..<n]" by simp
    have "solveLine solve ax (i, ?line) = ?line"
      by (simp only: solveLine_def prod.case u True simp_thms if_True)
    with eq show ?thesis by (simp only:)
  next
    case False
    have "partial_of ?line (line_of orig ax i)"
      unfolding line by (rule partial_of_masked_line)
    with rec i have s: "solve ax i ?line = (if cnt n Q \<le> k then Some (map g [0..<n]) else None)"
      unfolding recovers_def u [symmetric] line [symmetric] by blast
    show ?thesis
    proof (cases "cnt n Q \<le> k")
      case True
      then have eq: "map g [0..<n] = map (\<lambda>j. if Q j \<and> k < cnt n Q then [] else g j) [0..<n]" by simp
      have "solveLine solve ax (i, ?line) = map g [0..<n]"
        by (simp only: solveLine_def prod.case u False s True simp_thms if_True if_False option.case)
      with eq show ?thesis by (simp only:)
    next
      case gt: False
      then have eq: "?line = map (\<lambda>j. if Q j \<and> k < cnt n Q then [] else g j) [0..<n]" by simp
      have "solveLine solve ax (i, ?line) = ?line"
        by (simp only: solveLine_def prod.case u False s gt simp_thms if_True if_False option.case)
      with eq show ?thesis by (simp only:)
    qed
  qed
qed

lemma length_masked [simp]: "length (masked n orig P) = n"
  by (simp add: masked_def)

lemma nth_masked:
  "i < n \<Longrightarrow> masked n orig P ! i = map (\<lambda>j. if P i j then [] else orig ! i ! j) [0..<n]"
  by (simp add: masked_def)

lemma solveRows_masked:
  assumes "recovers k orig solve" and "full_square n orig"
  shows "solveRows solve (masked n orig P) = masked n orig (\<lambda>i j. P i j \<and> k < cnt n (P i))"
proof -
  have "solveLine solve Row (i, map (\<lambda>j. if P i j then [] else orig ! i ! j) [0..<n])
        = map (\<lambda>j. if P i j \<and> k < cnt n (P i) then [] else orig ! i ! j) [0..<n]" if "i < n" for i
  proof (rule solveLine_masked [where ax = Row and k = k and orig = orig])
    show "recovers k orig solve" by (rule assms)
    show "i < length orig" using assms(2) that by (simp add: full_square_def)
    show "line_of orig Row i = map (\<lambda>j. orig ! i ! j) [0..<n]"
      using assms(2) that by (rule line_of_Row)
    show "\<And>j. j < n \<Longrightarrow> orig ! i ! j \<noteq> []"
      using assms(2) that by (rule full_square_cell)
  qed
  then have "map (\<lambda>i. solveLine solve Row (i, masked n orig P ! i)) [0..<n]
             = map (\<lambda>i. map (\<lambda>j. if P i j \<and> k < cnt n (P i) then [] else orig ! i ! j) [0..<n]) [0..<n]"
    by (intro map_cong [OF refl]) (simp add: nth_masked)
  then show ?thesis
    by (simp add: solveRows_def) (simp add: masked_def tab_def)
qed

lemma solveCols_masked:
  assumes "recovers k orig solve" and "full_square n orig"
  shows "solveCols solve (masked n orig P) = masked n orig (\<lambda>i j. P i j \<and> k < cnt n (\<lambda>i. P i j))"
proof -
  have "solveLine solve Col (j, map (\<lambda>i. if P i j then [] else orig ! i ! j) [0..<n])
        = map (\<lambda>i. if P i j \<and> k < cnt n (\<lambda>i. P i j) then [] else orig ! i ! j) [0..<n]" if "j < n" for j
  proof (rule solveLine_masked [where ax = Col and k = k and orig = orig])
    show "recovers k orig solve" by (rule assms)
    show "j < length orig" using assms(2) that by (simp add: full_square_def)
    show "line_of orig Col j = map (\<lambda>i. orig ! i ! j) [0..<n]"
      using assms(2) by (rule line_of_Col)
    show "\<And>i. i < n \<Longrightarrow> orig ! i ! j \<noteq> []"
      using assms(2) that by (simp add: full_square_cell)
  qed
  then have "map (\<lambda>j. solveLine solve Col (j, tab n (\<lambda>j i. if P i j then [] else orig ! i ! j) ! j)) [0..<n]
             = map (\<lambda>j. map (\<lambda>i. if P i j \<and> k < cnt n (\<lambda>i. P i j) then [] else orig ! i ! j) [0..<n]) [0..<n]"
    by (intro map_cong [OF refl]) simp
  then have "map (\<lambda>j. solveLine solve Col (j, tab n (\<lambda>j i. if P i j then [] else orig ! i ! j) ! j)) [0..<n]
             = tab n (\<lambda>j i. if P i j \<and> k < cnt n (\<lambda>i. P i j) then [] else orig ! i ! j)"
    by (simp only: tab_def)
  moreover have "transpose (masked n orig P) = tab n (\<lambda>j i. if P i j then [] else orig ! i ! j)"
    by (simp only: masked_def transpose_tab)
  ultimately have "solveCols solve (masked n orig P)
      = transpose (tab n (\<lambda>j i. if P i j \<and> k < cnt n (\<lambda>i. P i j) then [] else orig ! i ! j))"
    by (simp only: solveCols_def length_tab)
  then show ?thesis
    by (simp only: transpose_tab masked_def)
qed

lemma missing_masked:
  assumes "full_square n orig"
  shows "missing (masked n orig P) = sum_list (map (\<lambda>i. cnt n (P i)) [0..<n])"
proof -
  have "unknowns (map (\<lambda>j. if P i j then [] else orig ! i ! j) [0..<n]) = cnt n (P i)" if "i < n" for i
    using assms that by (intro unknowns_masked_line) (auto simp: full_square_cell)
  then have "map unknowns (masked n orig P) = map (\<lambda>i. cnt n (P i)) [0..<n]"
    by (simp add: masked_def tab_def)
  then show ?thesis by (simp add: missing_def)
qed


lemma masked_cong:
  "(\<And>i j. i < n \<Longrightarrow> j < n \<Longrightarrow> P i j = P' i j) \<Longrightarrow> masked n orig P = masked n orig P'"
  unfolding masked_def by (rule tab_cong) simp

lemma masked_none:
  assumes "full_square n orig" and "\<And>i j. i < n \<Longrightarrow> j < n \<Longrightarrow> \<not> P i j"
  shows "masked n orig P = orig"
proof -
  have "masked n orig P = tab n (\<lambda>i j. orig ! i ! j)"
    unfolding masked_def using assms(2) by (intro tab_cong) simp
  with full_square_tab [OF assms(1)] show ?thesis by simp
qed

lemma missing_full: "full_square n orig \<Longrightarrow> missing orig = 0"
  by (auto simp: missing_def unknowns_def full_square_def filter_empty_conv)

lemma missing_masked_0:
  assumes "full_square n orig" and "missing (masked n orig P) = 0"
  shows "masked n orig P = orig"
proof (rule masked_none [OF assms(1)])
  fix i j assume i: "i < n" and j: "j < n"
  from assms have "sum_list (map (\<lambda>i. cnt n (P i)) [0..<n]) = 0"
    by (simp add: missing_masked)
  with i have "cnt n (P i) = 0" by simp
  then show "\<not> P i j" using j by (rule cnt_0)
qed

lemma repairLoop_fails:
  assumes rec: "recovers k orig solve" and sq: "full_square n orig" and n: "0 < n"
    and rows: "\<And>i. i < n \<Longrightarrow> k < cnt n (P i)"
    and cols: "\<And>j. j < n \<Longrightarrow> k < cnt n (\<lambda>i. P i j)"
  shows "repairLoop solve (masked n orig P) = Inl FailedToSolve"
proof -
  have r: "solveRows solve (masked n orig P) = masked n orig P"
    unfolding solveRows_masked [OF rec sq] using rows by (intro masked_cong) simp
  have c: "solveCols solve (masked n orig P) = masked n orig P"
    unfolding solveCols_masked [OF rec sq] using cols by (intro masked_cong) simp
  have "cnt n (P 0) \<le> sum_list (map (\<lambda>i. cnt n (P i)) [0..<n])"
    using n by (intro member_le_sum_list) simp_all
  with rows [OF n] have "missing (masked n orig P) \<noteq> 0"
    unfolding missing_masked [OF sq] by linarith
  then show ?thesis
    by (subst repairLoop.simps) (simp add: r c)
qed

lemma repairLoop_solves:
  assumes rec: "recovers k orig solve" and sq: "full_square n orig"
    and fin: "\<And>i j. i < n \<Longrightarrow> j < n \<Longrightarrow>
       \<not> ((P i j \<and> k < cnt n (P i)) \<and> k < cnt n (\<lambda>i. P i j \<and> k < cnt n (P i)))"
  shows "repairLoop solve (masked n orig P) = Inr orig"
proof (cases "missing (masked n orig P) = 0")
  case True
  with missing_masked_0 [OF sq True] show ?thesis
    by (subst repairLoop.simps) simp
next
  case False
  have "solveCols solve (solveRows solve (masked n orig P)) = orig"
    unfolding solveRows_masked [OF rec sq] solveCols_masked [OF rec sq]
    using fin by (intro masked_none [OF sq]) blast
  moreover have "repairLoop solve orig = Inr orig"
    by (subst repairLoop.simps) (simp add: missing_full [OF sq])
  ultimately show ?thesis
    using False by (subst repairLoop.simps) (simp add: missing_full [OF sq])
qed

lemma concat_rows:
  "concat (map (\<lambda>i. map (f i) [0..<n]) [0..<m]) = map (\<lambda>p. f (p div n) (p mod n)) [0..<m * n]"
proof (induction m)
  case 0 show ?case by simp
next
  case (Suc m)
  have "[0..<m * n + n] = [0..<m * n] @ [m * n..<m * n + n]"
    by (rule upt_add_eq_append) simp
  moreover have "map (\<lambda>j. j + m * n) [0..<n] = [m * n..<n + m * n]"
    by (rule map_add_upt)
  ultimately have "[0..<Suc m * n] = [0..<m * n] @ map (\<lambda>j. j + m * n) [0..<n]"
    by (simp only: mult_Suc add.commute)
  moreover have "map (\<lambda>p. f (p div n) (p mod n)) (map (\<lambda>j. j + m * n) [0..<n]) = map (f m) [0..<n]"
    by (simp add: comp_def)
  ultimately show ?case using Suc by simp
qed

lemma concat_full_square:
  assumes "full_square n orig"
  shows "concat orig = map (\<lambda>p. orig ! (p div n) ! (p mod n)) [0..<n * n]"
proof -
  have "concat orig = concat (tab n (\<lambda>i j. orig ! i ! j))"
    using full_square_tab [OF assms] by simp
  then show ?thesis by (simp add: tab_def concat_rows)
qed

lemma squareRows_map:
  "squareRows n n (map h [0..<n * n]) = tab n (\<lambda>i j. h (i * n + j))"
proof -
  have "take n (drop (i * n) (map h [0..<n * n])) = map (\<lambda>j. h (i * n + j)) [0..<n]" if "i < n" for i
  proof -
    from that have "Suc i * n \<le> n * n" by (metis Suc_leI mult_le_mono1)
    then have "take n (drop (i * n) [0..<n * n]) = [i * n..<i * n + n]"
      by (simp add: add.commute)
    also have "\<dots> = map (\<lambda>j. i * n + j) [0..<n]"
      using map_add_upt [of "i * n" n] by (simp add: add.commute)
    finally show ?thesis by (simp add: take_map drop_map comp_def)
  qed
  then show ?thesis by (simp add: squareRows_def tab_def)
qed


lemma flat_index: "i < n \<Longrightarrow> j < n \<Longrightarrow> i * n + j < n * (n::nat)"
proof -
  assume "i < n" and "j < n"
  then have "i * n + j < Suc i * n" by simp
  also from \<open>i < n\<close> have "\<dots> \<le> n * n" by (metis Suc_leI mult_le_mono1)
  finally show ?thesis .
qed

lemma concat_full_square_nth:
  assumes "full_square n orig" and "i < n" and "j < n"
  shows "concat orig ! (i * n + j) = orig ! i ! j"
  using assms flat_index [of i n j] by (simp add: concat_full_square)

lemma Import_masked:
  assumes "full_square (2 * k) orig"
  shows "Import (map (\<lambda>p. if p \<in> D then [] else concat orig ! p) [0..<2 * k * (2 * k)])
         = Some \<lparr>originalWidth = k, cells = masked (2 * k) orig (\<lambda>i j. i * (2 * k) + j \<in> D)\<rparr>"
proof -
  let ?n = "2 * k"
  let ?h = "\<lambda>p. if p \<in> D then [] else concat orig ! p"
  have "tab ?n (\<lambda>i j. ?h (i * ?n + j)) = masked ?n orig (\<lambda>i j. i * ?n + j \<in> D)"
    unfolding masked_def using concat_full_square_nth [OF assms] by (intro tab_cong) simp
  then have "squareRows ?n ?n (map ?h [0..<?n * ?n]) = masked ?n orig (\<lambda>i j. i * ?n + j \<in> D)"
    by (simp only: squareRows_map)
  moreover have "squareWidth (length (map ?h [0..<?n * ?n])) = Some ?n"
    using squareWidth_square [of ?n] by simp
  ultimately show ?thesis
    unfolding Import_def by simp
qed

lemma removeRandShares_distinct:
  "distinct draws \<Longrightarrow> (\<forall>p\<in>set draws. p < length data \<and> data ! p \<noteq> []) \<Longrightarrow>
   removeRandShares data (length draws) draws
   = Some (map (\<lambda>p. if p \<in> set draws then [] else data ! p) [0..<length data])"
proof (induction draws arbitrary: data)
  case Nil
  then show ?case by (simp add: map_nth)
next
  case (Cons x xs)
  let ?data = "data[x := []]"
  from Cons.prems have x: "x < length data" "data ! x \<noteq> []" "x \<notin> set xs" "distinct xs"
    by auto
  have "\<forall>p\<in>set xs. p < length ?data \<and> ?data ! p \<noteq> []"
    using Cons.prems by (auto simp: nth_list_update)
  from Cons.IH [OF x(4) this]
  have "removeRandShares ?data (length xs) xs
        = Some (map (\<lambda>p. if p \<in> set xs then [] else ?data ! p) [0..<length data])"
    by simp
  moreover have "map (\<lambda>p. if p \<in> set xs then [] else ?data ! p) [0..<length data]
        = map (\<lambda>p. if p \<in> set (x # xs) then [] else data ! p) [0..<length data]"
    by (intro map_cong [OF refl]) (simp add: nth_list_update)
  ultimately show ?case using x by simp
qed

lemma removeRandShares_sound:
  "removeRandShares data d draws = Some r \<Longrightarrow>
   \<exists>D. D \<subseteq> {p. p < length data \<and> data ! p \<noteq> []} \<and> card D = d
       \<and> r = map (\<lambda>p. if p \<in> D then [] else data ! p) [0..<length data]"
proof (induction data d draws rule: removeRandShares.induct)
  case (1 data draws)
  then have "r = map (\<lambda>p. if p \<in> {} then [] else data ! p) [0..<length data]"
    by (simp add: map_nth)
  then show ?case by (intro exI [of _ "{}"]) simp
next
  case (2 data d)
  then show ?case by simp
next
  case (3 data d ind draws)
  show ?case
  proof (cases "length data \<le> ind")
    case True
    with "3.prems" show ?thesis by simp
  next
    case False
    show ?thesis
    proof (cases "length (data ! ind) = 0")
      case True
      with False "3.prems" "3.IH"(1) show ?thesis by simp
    next
      case nonempty: False
      let ?data = "data[ind := []]"
      from False nonempty "3.prems" have "removeRandShares ?data d draws = Some r" by simp
      from "3.IH"(2) [OF False nonempty this]
      obtain D where D: "D \<subseteq> {p. p < length ?data \<and> ?data ! p \<noteq> []}" "card D = d"
        "r = map (\<lambda>p. if p \<in> D then [] else ?data ! p) [0..<length ?data]"
        by blast
      have fin: "finite D"
        by (rule finite_subset [OF D(1)]) simp
      have notin: "ind \<notin> D" using D(1) False by auto
      have "insert ind D \<subseteq> {p. p < length data \<and> data ! p \<noteq> []}"
        using D(1) False nonempty by (auto simp: nth_list_update split: if_splits)
      moreover have "card (insert ind D) = Suc d"
        using fin notin D(2) by simp
      moreover have "r = map (\<lambda>p. if p \<in> insert ind D then [] else data ! p) [0..<length data]"
        unfolding D(3) by (intro map_cong) (auto simp: nth_list_update)
      ultimately show ?thesis by blast
    qed
  qed
qed

lemma cnt_card: "cnt n Q = card {j. j < n \<and> Q j}"
proof -
  have "{x. Q x} \<inter> set [0..<n] = {j. j < n \<and> Q j}" by auto
  then show ?thesis using distinct_length_filter [of "[0..<n]" Q] by simp
qed

lemma cnt_mono: "(\<And>j. j < n \<Longrightarrow> Q j \<Longrightarrow> Q' j) \<Longrightarrow> cnt n Q \<le> cnt n Q'"
  unfolding cnt_card by (intro card_mono) auto

lemma cnt_compl: "cnt n Q + cnt n (\<lambda>j. \<not> Q j) = n"
  using sum_length_filter_compl [of Q "[0..<n]"] by simp

lemma cnt_almost_all:
  assumes D: "D \<subseteq> {..<m}" "card D = m - 1" and inj: "inj_on f {..<n}"
    and range: "\<And>j. j < n \<Longrightarrow> f j < m"
  shows "n - 1 \<le> cnt n (\<lambda>j. f j \<in> D)"
proof -
  have finD: "finite D" using D(1) by (rule finite_subset) simp
  have "card ({..<m} - D) = m - (m - 1)"
    using D finD by (simp add: card_Diff_subset)
  then have one: "card ({..<m} - D) \<le> 1" by simp
  have "f ` {j. j < n \<and> f j \<notin> D} \<subseteq> {..<m} - D"
    using range by auto
  then have "card (f ` {j. j < n \<and> f j \<notin> D}) \<le> card ({..<m} - D)"
    by (intro card_mono) simp_all
  moreover have "card (f ` {j. j < n \<and> f j \<notin> D}) = card {j. j < n \<and> f j \<notin> D}"
    by (intro card_image inj_on_subset [OF inj]) auto
  ultimately have "cnt n (\<lambda>j. f j \<notin> D) \<le> 1"
    using one by (simp add: cnt_card)
  with cnt_compl [where n = n and Q = "\<lambda>j. f j \<in> D"] show ?thesis by simp
qed

subsection \<open>The recovery bound\<close>

lemma cnt_pattern:
  assumes "2 \<le> k"
  shows "cnt (2 * k) (pattern k i)
         = (if i < k then Suc k else if i = k then k else if i = Suc k then 1 else 0)"
proof -
  have "{j. j < 2 * k \<and> pattern k i j}
        = (if i < k then {..k} else if i = k then {..<k} else if i = Suc k then {0} else {})"
    using assms by (auto simp: pattern_def)
  then show ?thesis by (simp add: cnt_card)
qed

lemma upt_split:
  assumes "2 \<le> k"
  shows "[0..<2 * k] = [0..<k] @ k # Suc k # [Suc (Suc k)..<2 * k]"
proof -
  have "[0..<k + k] = [0..<k] @ [k..<k + k]" by (rule upt_add_eq_append) simp
  moreover have "[k..<k + k] = k # [Suc k..<k + k]" using assms by (intro upt_conv_Cons) simp
  moreover have "[Suc k..<k + k] = Suc k # [Suc (Suc k)..<k + k]"
    using assms by (intro upt_conv_Cons) simp
  ultimately show ?thesis by (simp add: mult_2)
qed

lemma sum_cnt_pattern:
  assumes "2 \<le> k"
  shows "sum_list (map (\<lambda>i. cnt (2 * k) (pattern k i)) [0..<2 * k]) = (k + 1) * (k + 1)"
proof -
  let ?c = "\<lambda>i. cnt (2 * k) (pattern k i)"
  have a: "map ?c [0..<k] = map (\<lambda>i. Suc k) [0..<k]"
    by (intro map_cong [OF refl]) (simp add: cnt_pattern [OF assms])
  have b: "map ?c [Suc (Suc k)..<2 * k] = map (\<lambda>i. 0) [Suc (Suc k)..<2 * k]"
    by (intro map_cong [OF refl]) (simp add: cnt_pattern [OF assms])
  have "sum_list (map ?c [0..<2 * k])
        = sum_list (map ?c [0..<k]) + ?c k + ?c (Suc k) + sum_list (map ?c [Suc (Suc k)..<2 * k])"
    unfolding upt_split [OF assms] by simp
  also have "\<dots> = k * Suc k + k + 1 + 0"
    unfolding a b by (simp add: cnt_pattern [OF assms] sum_list_triv)
  finally show ?thesis by simp
qed

lemma length_filter_square:
  "length (filter (\<lambda>p. P (p div n) (p mod n)) [0..<m * n])
   = sum_list (map (\<lambda>i. cnt n (P i)) [0..<m])"
proof -
  have "length (filter (\<lambda>p. P (p div n) (p mod n)) [0..<m * n])
        = length (filter (\<lambda>(i, j). P i j) (map (\<lambda>p. (p div n, p mod n)) [0..<m * n]))"
    by (simp add: filter_map comp_def)
  also have "map (\<lambda>p. (p div n, p mod n)) [0..<m * n]
        = concat (map (\<lambda>i. map (\<lambda>j. (i, j)) [0..<n]) [0..<m])"
    by (rule concat_rows [symmetric])
  also have "length (filter (\<lambda>(i, j). P i j) \<dots>) = sum_list (map (\<lambda>i. cnt n (P i)) [0..<m])"
    by (simp add: filter_concat length_concat comp_def filter_map)
  finally show ?thesis .
qed

lemma pattern_solved:
  assumes k: "2 \<le> k" and i: "i < 2 * k" and j: "j < 2 * k"
  shows "\<not> ((pattern k i j \<and> k < cnt (2 * k) (pattern k i))
            \<and> k < cnt (2 * k) (\<lambda>i. pattern k i j \<and> k < cnt (2 * k) (pattern k i)))"
proof -
  have "cnt (2 * k) (\<lambda>i. pattern k i j \<and> k < cnt (2 * k) (pattern k i))
        \<le> cnt (2 * k) (\<lambda>i. i < k)"
    by (rule cnt_mono) (auto simp: cnt_pattern [OF k] split: if_splits)
  also have "\<dots> = k"
  proof -
    have "{i. i < 2 * k \<and> i < k} = {..<k}" by auto
    then show ?thesis by (simp add: cnt_card)
  qed
  finally show ?thesis by simp
qed


lemma wellformed_full_square:
  "wellformed eds \<Longrightarrow> full_square (2 * originalWidth eds) (cells eds)"
  by (auto simp: wellformed_def full_square_def list_all_iff)

lemma length_concat_full_square: "full_square n orig \<Longrightarrow> length (concat orig) = n * n"
  by (simp add: concat_full_square)

lemma concat_full_square_nonempty:
  assumes "full_square n orig" and "p < n * n"
  shows "concat orig ! p \<noteq> []"
proof -
  have "0 < n" using assms(2) by (cases n) auto
  then have "p mod n < n" by simp
  moreover have "p div n < n" using assms(2) by (simp add: less_mult_imp_div_less)
  ultimately have "orig ! (p div n) ! (p mod n) \<noteq> []"
    using assms(1) by (intro full_square_cell)
  then show ?thesis using assms by (simp add: concat_full_square)
qed

lemma all_but_one_fails:
  assumes k: "2 \<le> k" and sq: "full_square (2 * k) orig" and rec: "recovers k orig solve"
    and rm: "removeRandShares (concat orig) (2 * k * (2 * k) - 1) draws = Some rdata"
  shows "\<exists>damaged. Import rdata = Some damaged \<and> Repair solve damaged = Inl FailedToSolve"
proof -
  let ?n = "2 * k"
  have len: "length (concat orig) = ?n * ?n" by (rule length_concat_full_square [OF sq])
  from removeRandShares_sound [OF rm] obtain D
    where D: "D \<subseteq> {p. p < ?n * ?n \<and> concat orig ! p \<noteq> []}" "card D = ?n * ?n - 1"
      and r: "rdata = map (\<lambda>p. if p \<in> D then [] else concat orig ! p) [0..<?n * ?n]"
    unfolding len by blast
  let ?P = "\<lambda>i j. i * ?n + j \<in> D"
  have imp: "Import rdata = Some \<lparr>originalWidth = k, cells = masked ?n orig ?P\<rparr>"
    unfolding r by (rule Import_masked [OF sq])
  have sub: "D \<subseteq> {..<?n * ?n}" using D(1) by auto
  have rows: "k < cnt ?n (?P i)" if "i < ?n" for i
  proof -
    have "?n - 1 \<le> cnt ?n (\<lambda>j. i * ?n + j \<in> D)"
    proof (rule cnt_almost_all [where m = "?n * ?n"])
      show "inj_on (\<lambda>j. i * ?n + j) {..<?n}" by (simp add: inj_on_def)
      show "\<And>j. j < ?n \<Longrightarrow> i * ?n + j < ?n * ?n" using that by (rule flat_index)
    qed (rule sub, rule D(2))
    with k show ?thesis by simp
  qed
  have cols: "k < cnt ?n (\<lambda>i. ?P i j)" if "j < ?n" for j
  proof -
    have "?n - 1 \<le> cnt ?n (\<lambda>i. i * ?n + j \<in> D)"
    proof (rule cnt_almost_all [where m = "?n * ?n"])
      show "inj_on (\<lambda>i. i * ?n + j) {..<?n}" using k by (simp add: inj_on_def)
      show "\<And>i. i < ?n \<Longrightarrow> i * ?n + j < ?n * ?n" using that by (intro flat_index)
    qed (rule sub, rule D(2))
    with k show ?thesis by simp
  qed
  have "repairLoop solve (masked ?n orig ?P) = Inl FailedToSolve"
    using rec sq _ rows cols by (rule repairLoop_fails) (use k in simp)
  then have "Repair solve \<lparr>originalWidth = k, cells = masked ?n orig ?P\<rparr> = Inl FailedToSolve"
    by (simp add: Repair_def)
  with imp show ?thesis by blast
qed

lemma some_pattern_recovers:
  assumes k: "2 \<le> k" and sq: "full_square (2 * k) orig" and rec: "recovers k orig solve"
  shows "\<exists>draws rdata damaged.
           removeRandShares (concat orig) ((k + 1) * (k + 1)) draws = Some rdata
           \<and> Import rdata = Some damaged
           \<and> Repair solve damaged = Inr \<lparr>originalWidth = k, cells = orig\<rparr>"
proof -
  let ?n = "2 * k"
  let ?draws = "filter (\<lambda>p. pattern k (p div ?n) (p mod ?n)) [0..<?n * ?n]"
  let ?rdata = "map (\<lambda>p. if p \<in> set ?draws then [] else concat orig ! p) [0..<?n * ?n]"
  let ?P = "\<lambda>i j. i * ?n + j \<in> set ?draws"
  have len: "length (concat orig) = ?n * ?n" by (rule length_concat_full_square [OF sq])
  have "length ?draws = (k + 1) * (k + 1)"
    unfolding length_filter_square by (rule sum_cnt_pattern [OF k])
  moreover have "removeRandShares (concat orig) (length ?draws) ?draws
      = Some (map (\<lambda>p. if p \<in> set ?draws then [] else concat orig ! p) [0..<length (concat orig)])"
    by (rule removeRandShares_distinct) (auto simp: len concat_full_square_nonempty [OF sq])
  ultimately have rm: "removeRandShares (concat orig) ((k + 1) * (k + 1)) ?draws = Some ?rdata"
    by (simp only: len)
  have imp: "Import ?rdata = Some \<lparr>originalWidth = k, cells = masked ?n orig ?P\<rparr>"
    by (rule Import_masked [OF sq])
  have "masked ?n orig ?P = masked ?n orig (pattern k)"
  proof (rule masked_cong)
    fix i j assume "i < ?n" and "j < ?n"
    then show "?P i j = pattern k i j" using flat_index [of i ?n j] by simp
  qed
  moreover have "repairLoop solve (masked ?n orig (pattern k)) = Inr orig"
    using rec sq by (rule repairLoop_solves) (rule pattern_solved [OF k])
  ultimately have "Repair solve \<lparr>originalWidth = k, cells = masked ?n orig ?P\<rparr>
      = Inr \<lparr>originalWidth = k, cells = orig\<rparr>"
    by (simp add: Repair_def)
  with rm imp show ?thesis by blast
qed

lemma rootSolver_recovers: "recovers k orig (rootSolver k orig)"
  by (simp add: recovers_def rootSolver_def)

text \<open>
  Claim C3, for an original width of at least 2. Let \<open>eds\<close> be an EDS of original width
  \<open>k \<ge> 2\<close> with every share known, and let solving a line follow the recovery rule for
  \<open>eds\<close>. Then some deletion of \<open>(k + 1)\<^sup>2\<close> shares leaves a square that \<^verbatim>\<open>Repair\<close> restores
  to \<open>eds\<close>; and after every deletion of \<open>(2k)\<^sup>2 - 1\<close> shares \<^verbatim>\<open>Repair\<close> fails with
  \<^verbatim>\<open>FailedToSolve\<close>.
\<close>

theorem Repair_recovery_bound:
  assumes "2 \<le> originalWidth eds" and "wellformed eds"
    and "recovers (originalWidth eds) (cells eds) solve"
  shows "(\<exists>draws rdata damaged.
            removeRandShares (ExtractEDS eds) ((originalWidth eds + 1)\<^sup>2) draws = Some rdata
            \<and> Import rdata = Some damaged \<and> Repair solve damaged = Inr eds)
       \<and> (\<forall>draws rdata.
            removeRandShares (ExtractEDS eds) ((2 * originalWidth eds)\<^sup>2 - 1) draws = Some rdata
            \<longrightarrow> (\<exists>damaged. Import rdata = Some damaged
                   \<and> Repair solve damaged = Inl FailedToSolve))"
proof -
  let ?k = "originalWidth eds"
  have sq: "full_square (2 * ?k) (cells eds)"
    using assms(2) by (rule wellformed_full_square)
  have eds: "\<lparr>originalWidth = ?k, cells = cells eds\<rparr> = eds" by simp
  show ?thesis
    using some_pattern_recovers [OF assms(1) sq assms(3)] all_but_one_fails [OF assms(1) sq assms(3)]
    unfolding ExtractEDS_def power2_eq_square eds by blast
qed

theorem Repair_recovery_bound_witness:
  "2 \<le> originalWidth \<lparr>originalWidth = 2, cells = square2\<rparr>
   \<and> wellformed \<lparr>originalWidth = 2, cells = square2\<rparr>
   \<and> recovers 2 square2 (rootSolver 2 square2)
   \<and> (\<exists>draws rdata damaged.
         removeRandShares (ExtractEDS \<lparr>originalWidth = 2, cells = square2\<rparr>) 9 draws = Some rdata
         \<and> Import rdata = Some damaged
         \<and> Repair (rootSolver 2 square2) damaged = Inr \<lparr>originalWidth = 2, cells = square2\<rparr>)
   \<and> removeRandShares (ExtractEDS \<lparr>originalWidth = 2, cells = square2\<rparr>) 15
         [0, 1, 2, 3, 4, 5, 6, 6, 7, 8, 9, 11, 12, 13, 14, 15]
       = Some [[], [], [], [], [], [], [], [], [], [], [11], [], [], [], [], []]
   \<and> (\<exists>damaged. Import [[], [], [], [], [], [], [], [], [], [], [11], [], [], [], [], []] = Some damaged
         \<and> Repair (rootSolver 2 square2) damaged = Inl FailedToSolve)"
proof -
  let ?eds = "\<lparr>originalWidth = 2, cells = square2\<rparr>"
  have w: "wellformed ?eds" by (simp add: wellformed_def square2_def)
  have r: "recovers (originalWidth ?eds) (cells ?eds) (rootSolver 2 square2)"
    using rootSolver_recovers [of 2 square2] by simp
  have k: "2 \<le> originalWidth ?eds" by simp
  have rm: "removeRandShares (ExtractEDS ?eds) ((2 * originalWidth ?eds)\<^sup>2 - 1)
              [0, 1, 2, 3, 4, 5, 6, 6, 7, 8, 9, 11, 12, 13, 14, 15]
            = Some [[], [], [], [], [], [], [], [], [], [], [11], [], [], [], [], []]"
    by code_simp
  from Repair_recovery_bound [OF k w r] rm show ?thesis
    using w r by (simp del: removeRandShares.simps)
qed

text \<open>
  For the original width 1 the second half of claim C3 fails: a line of two shares with one
  unknown is within the rule, so from the one share left of the four the repair restores
  the square.
\<close>

theorem Repair_width_one_recovers_from_one_share:
  "wellformed \<lparr>originalWidth = 1, cells = square1\<rparr>
   \<and> recovers 1 square1 (rootSolver 1 square1)
   \<and> removeRandShares (ExtractEDS \<lparr>originalWidth = 1, cells = square1\<rparr>) ((2 * 1)\<^sup>2 - 1) [1, 2, 3]
       = Some [[7], [], [], []]
   \<and> Import [[7], [], [], []] = Some \<lparr>originalWidth = 1, cells = [[[7], []], [[], []]]\<rparr>
   \<and> Repair (rootSolver 1 square1) \<lparr>originalWidth = 1, cells = [[[7], []], [[], []]]\<rparr>
       = Inr \<lparr>originalWidth = 1, cells = square1\<rparr>"
proof (intro conjI)
  show "wellformed \<lparr>originalWidth = 1, cells = square1\<rparr>"
    by (simp add: wellformed_def square1_def)
  show "recovers 1 square1 (rootSolver 1 square1)"
    by (rule rootSolver_recovers)
  show "removeRandShares (ExtractEDS \<lparr>originalWidth = 1, cells = square1\<rparr>) ((2 * 1)\<^sup>2 - 1) [1, 2, 3]
        = Some [[7], [], [], []]"
    by code_simp
  show "Import [[7], [], [], []] = Some \<lparr>originalWidth = 1, cells = [[[7], []], [[], []]]\<rparr>"
    by code_simp
  show "Repair (rootSolver 1 square1) \<lparr>originalWidth = 1, cells = [[[7], []], [[], []]]\<rparr>
        = Inr \<lparr>originalWidth = 1, cells = square1\<rparr>"
    by code_simp
qed

end
